theory Spec2Isabelle
  imports Complex_Main "HOL-Library.Word"
begin

section \<open>Python and numpy primitives used by the sources\<close>

text \<open>
  The exceptions the modelled code can raise: an index outside a list or an array, a key
  missing from a dict, and numpy's complaint about the argmax of an empty sequence.
\<close>

datatype error = IndexError | KeyError | ValueError

text \<open>
  Indexing a Python list or a one-dimensional numpy array of length \<open>len\<close> with an integer:
  a negative index counts from the end, anything outside \<open>-len .. len - 1\<close> raises IndexError.
\<close>

definition py_index :: "nat \<Rightarrow> int \<Rightarrow> error + nat" where
  "py_index len i =
     (let j = (if i < 0 then int len + i else i)
      in if 0 \<le> j \<and> j < int len then Inr (nat j) else Inl IndexError)"

definition py_getitem :: "'a list \<Rightarrow> int \<Rightarrow> error + 'a" where
  "py_getitem xs i = (case py_index (length xs) i of Inl e \<Rightarrow> Inl e | Inr j \<Rightarrow> Inr (xs ! j))"

definition py_setitem :: "'a list \<Rightarrow> int \<Rightarrow> 'a \<Rightarrow> error + 'a list" where
  "py_setitem xs i v = (case py_index (length xs) i of Inl e \<Rightarrow> Inl e | Inr j \<Rightarrow> Inr (xs[j := v]))"

text \<open>
  The augmented assignment \<open>xs[i] op= v\<close>: read the slot, apply the operation, write it back.
\<close>

definition py_augitem :: "'a list \<Rightarrow> int \<Rightarrow> ('a \<Rightarrow> 'a) \<Rightarrow> error + 'a list" where
  "py_augitem xs i f =
     (case py_index (length xs) i of Inl e \<Rightarrow> Inl e | Inr j \<Rightarrow> Inr (xs[j := f (xs ! j)]))"

text \<open>
  \<open>numpy.argmax\<close> of a one-dimensional array: a left-to-right scan that keeps the index of
  the largest element seen so far and replaces it only by a strictly larger one, so that the
  first occurrence of the maximum is returned; an empty array raises ValueError.
\<close>

fun argmax_scan :: "'a::linorder list \<Rightarrow> nat \<Rightarrow> nat \<Rightarrow> 'a \<Rightarrow> nat" where
  "argmax_scan [] i best m = best"
| "argmax_scan (x # xs) i best m =
     (if m < x then argmax_scan xs (i + 1) i x else argmax_scan xs (i + 1) best m)"

definition np_argmax :: "'a::linorder list \<Rightarrow> error + nat" where
  "np_argmax xs = (case xs of [] \<Rightarrow> Inl ValueError | x # rest \<Rightarrow> Inr (argmax_scan rest 1 0 x))"


section \<open>The move ledger (board/record.py)\<close>

text \<open>
  Modelled from the spec: the enum \<open>board.stone.Stone\<close> is imported by record.py but is not
  among the sources. The ledger only stores its values; the members are the empty colour
  used by record.py and the two players' colours named by the specification.
\<close>

datatype Stone = EMPTY | BLACK | WHITE

text \<open>
  The class \<open>Record\<close>: two Python lists and a numpy array of unsigned 64-bit hashes. The
  constants \<open>MAX_RECORDS\<close> and \<open>PASS\<close> come from board/constant.py, which is not among the
  sources; every operation that reads them takes them as parameters of the same name.
\<close>

record Record =
  color :: "Stone list"
  pos :: "int list"
  hash_value :: "64 word list"

definition Record_init :: "nat \<Rightarrow> int \<Rightarrow> Record" where
  "Record_init MAX_RECORDS PASS =
     \<lparr>color = replicate MAX_RECORDS EMPTY,
      pos = replicate MAX_RECORDS PASS,
      hash_value = replicate MAX_RECORDS 0\<rparr>"

text \<open>\<open>clear\<close> builds two new lists and fills the existing hash array in place.\<close>

definition clear :: "nat \<Rightarrow> int \<Rightarrow> Record \<Rightarrow> Record" where
  "clear MAX_RECORDS PASS r =
     r\<lparr>color := replicate MAX_RECORDS EMPTY,
       pos := replicate MAX_RECORDS PASS,
       hash_value := replicate (length (hash_value r)) 0\<rparr>"

text \<open>
  \<open>save\<close> returns the ledger together with the lines it printed on the error stream
  (\<open>print_err\<close>). An exception carries the ledger as it was when it was raised, since the
  three stores happen one after the other.
\<close>

definition save ::
  "nat \<Rightarrow> Record \<Rightarrow> int \<Rightarrow> Stone \<Rightarrow> int \<Rightarrow> 64 word \<Rightarrow> (error \<times> Record) + (Record \<times> string list)" where
  "save MAX_RECORDS r moves c p h =
     (if moves < int MAX_RECORDS then
        (case py_setitem (color r) moves c of
           Inl e \<Rightarrow> Inl (e, r)
         | Inr cs \<Rightarrow>
             (case py_setitem (pos r) moves p of
                Inl e \<Rightarrow> Inl (e, r\<lparr>color := cs\<rparr>)
              | Inr ps \<Rightarrow>
                  (case py_setitem (hash_value r) moves h of
                     Inl e \<Rightarrow> Inl (e, r\<lparr>color := cs, pos := ps\<rparr>)
                   | Inr hs \<Rightarrow> Inr (r\<lparr>color := cs, pos := ps, hash_value := hs\<rparr>, []))))
      else Inr (r, [''Cannot save move record.'']))"

text \<open>\<open>np.any(self.hash_value == hash_value)\<close>: compare every slot, then ask for one hit.\<close>

definition has_same_hash :: "Record \<Rightarrow> 64 word \<Rightarrow> bool" where
  "has_same_hash r h = list_ex (\<lambda>b. b) (map (\<lambda>x. x = h) (hash_value r))"

definition get :: "Record \<Rightarrow> int \<Rightarrow> error + (Stone \<times> int \<times> 64 word)" where
  "get r moves =
     (case py_getitem (color r) moves of
        Inl e \<Rightarrow> Inl e
      | Inr c \<Rightarrow>
          (case py_getitem (pos r) moves of
             Inl e \<Rightarrow> Inl e
           | Inr p \<Rightarrow>
               (case py_getitem (hash_value r) moves of
                  Inl e \<Rightarrow> Inl e
                | Inr h \<Rightarrow> Inr (c, p, h))))"

definition get_hash_history :: "Record \<Rightarrow> 64 word list" where
  "get_hash_history r = hash_value r"

definition copy_record :: "Record \<Rightarrow> Record \<Rightarrow> Record" where
  "copy_record dst src = dst\<lparr>color := color src, pos := pos src, hash_value := hash_value src\<rparr>"

text \<open>
  A run of \<open>save\<close> calls, as a game issues them: it stops at the first exception and collects
  what was printed.
\<close>

fun save_all ::
  "nat \<Rightarrow> Record \<Rightarrow> (int \<times> Stone \<times> int \<times> 64 word) list \<Rightarrow> (error \<times> Record) + (Record \<times> string list)" where
  "save_all MAX_RECORDS r [] = Inr (r, [])"
| "save_all MAX_RECORDS r ((moves, c, p, h) # rest) =
     (case save MAX_RECORDS r moves c p h of
        Inl e \<Rightarrow> Inl e
      | Inr (r', out) \<Rightarrow>
          (case save_all MAX_RECORDS r' rest of
             Inl e \<Rightarrow> Inl e
           | Inr (r'', out') \<Rightarrow> Inr (r'', out @ out')))"

text \<open>
  Every ledger the code builds has its three sequences at the capacity: the constructor and
  \<open>clear\<close> create them so, \<open>save\<close> only overwrites slots.
\<close>

definition record_wf :: "nat \<Rightarrow> Record \<Rightarrow> bool" where
  "record_wf MAX_RECORDS r \<longleftrightarrow>
     length (color r) = MAX_RECORDS \<and> length (pos r) = MAX_RECORDS \<and>
     length (hash_value r) = MAX_RECORDS"


section \<open>The search node (mcts/node.py)\<close>

text \<open>
  \<open>MAX_ACTIONS = BOARD_SIZE ** 2 + 1\<close>; \<open>BOARD_SIZE\<close> comes from board/constant.py and
  \<open>NOT_EXPANDED\<close> from mcts/constant.py, neither of which is among the sources, so both are
  parameters. \<open>PUCT_WEIGHT\<close> is defined in node.py itself.
\<close>

definition MAX_ACTIONS :: "nat \<Rightarrow> nat" where
  "MAX_ACTIONS BOARD_SIZE = BOARD_SIZE ^ 2 + 1"

definition PUCT_WEIGHT :: real where
  "PUCT_WEIGHT = 1"

text \<open>
  The class \<open>MCTSNode\<close>. The two counters of the node itself are Python integers, \<open>action\<close>
  is a Python list, the int32 arrays are lists of 32-bit words (read as signed with
  \<open>sint\<close>, arithmetic wraps), and the float64 values are reals: infinities and NaN are not
  modelled. The sum of two float64 values is rounded, so it is not the sum of the reals: the
  two backup methods, which store such sums, take the float64 addition as the parameter
  \<open>float64_add\<close>. \<open>num_children\<close> is only ever assigned a loop counter that starts
  at 0, hence a natural number.
\<close>

record MCTSNode =
  node_visits :: int
  virtual_loss :: int
  node_value_sum :: real
  action :: "int list"
  children_index :: "32 word list"
  children_value :: "real list"
  children_visits :: "32 word list"
  children_policy :: "real list"
  children_virtual_loss :: "32 word list"
  children_value_sum :: "real list"
  noise :: "real list"
  num_children :: nat

text \<open>The constructor; \<open>np.zeros\<close> refuses a negative length.\<close>

definition MCTSNode_init :: "int \<Rightarrow> error + MCTSNode" where
  "MCTSNode_init num_actions =
     (if num_actions < 0 then Inl ValueError
      else Inr \<lparr>node_visits = 0, virtual_loss = 0, node_value_sum = 0,
                action = replicate (nat num_actions) 0,
                children_index = replicate (nat num_actions) 0,
                children_value = replicate (nat num_actions) 0,
                children_visits = replicate (nat num_actions) 0,
                children_policy = replicate (nat num_actions) 0,
                children_virtual_loss = replicate (nat num_actions) 0,
                children_value_sum = replicate (nat num_actions) 0,
                noise = replicate (nat num_actions) 0,
                num_children = 0\<rparr>)"

text \<open>
  A policy map is a Python dict from action to prior: an association list in insertion
  order, which is the order \<open>items()\<close> iterates in, with pairwise distinct keys.
\<close>

type_synonym policy_map = "(int \<times> real) list"

definition dict_wf :: "policy_map \<Rightarrow> bool" where
  "dict_wf policy \<longleftrightarrow> distinct (map fst policy)"

text \<open>
  The loop of \<open>set_policy\<close>, on the items still to come and the running \<open>index\<close>. Both stores
  can fall off the end of their sequence; the exception then carries the node as it is.
\<close>

fun set_policy_loop :: "policy_map \<Rightarrow> nat \<Rightarrow> MCTSNode \<Rightarrow> (error \<times> MCTSNode) + (nat \<times> MCTSNode)" where
  "set_policy_loop [] index n = Inr (index, n)"
| "set_policy_loop ((position, policy) # rest) index n =
     (case py_setitem (action n) (int index) position of
        Inl e \<Rightarrow> Inl (e, n)
      | Inr acts \<Rightarrow>
          (case py_setitem (children_policy n) (int index) policy of
             Inl e \<Rightarrow> Inl (e, n\<lparr>action := acts\<rparr>)
           | Inr pols \<Rightarrow>
               set_policy_loop rest (index + 1) (n\<lparr>action := acts, children_policy := pols\<rparr>)))"

definition set_policy :: "policy_map \<Rightarrow> MCTSNode \<Rightarrow> (error \<times> MCTSNode) + MCTSNode" where
  "set_policy policy_map n =
     (case set_policy_loop policy_map 0 n of
        Inl e \<Rightarrow> Inl e
      | Inr (index, n') \<Rightarrow> Inr (n'\<lparr>num_children := index\<rparr>))"

text \<open>
  \<open>expand\<close>: three scalars are reset, \<open>action\<close> becomes a new list of \<open>MAX_ACTIONS\<close> zeros,
  six arrays are filled in place (so they keep their length), then \<open>set_policy\<close> runs.
  \<open>children_policy\<close> is not among the arrays that are filled.
\<close>

definition expand :: "nat \<Rightarrow> 32 word \<Rightarrow> policy_map \<Rightarrow> MCTSNode \<Rightarrow> (error \<times> MCTSNode) + MCTSNode" where
  "expand BOARD_SIZE NOT_EXPANDED policy n =
     set_policy policy
       (n\<lparr>node_visits := 0, node_value_sum := 0, virtual_loss := 0,
          action := replicate (MAX_ACTIONS BOARD_SIZE) 0,
          children_index := replicate (length (children_index n)) NOT_EXPANDED,
          children_value := replicate (length (children_value n)) 0,
          children_visits := replicate (length (children_visits n)) 0,
          children_virtual_loss := replicate (length (children_virtual_loss n)) 0,
          children_value_sum := replicate (length (children_value_sum n)) 0,
          noise := replicate (length (noise n)) 0\<rparr>)"

definition add_virtual_loss :: "int \<Rightarrow> MCTSNode \<Rightarrow> (error \<times> MCTSNode) + MCTSNode" where
  "add_virtual_loss index n =
     (let n1 = n\<lparr>virtual_loss := virtual_loss n + 1\<rparr>
      in case py_augitem (children_virtual_loss n1) index (\<lambda>x. x + 1) of
           Inl e \<Rightarrow> Inl (e, n1)
         | Inr vls \<Rightarrow> Inr (n1\<lparr>children_virtual_loss := vls\<rparr>))"

text \<open>
  The loop of \<open>update_policy\<close> over \<open>range(num_children)\<close>: read the action, look it up in
  the dict (KeyError when it is missing), store the prior.
\<close>

fun update_policy_loop :: "policy_map \<Rightarrow> nat list \<Rightarrow> MCTSNode \<Rightarrow> (error \<times> MCTSNode) + MCTSNode" where
  "update_policy_loop policy [] n = Inr n"
| "update_policy_loop policy (i # rest) n =
     (case py_getitem (action n) (int i) of
        Inl e \<Rightarrow> Inl (e, n)
      | Inr a \<Rightarrow>
          (case map_of policy a of
             None \<Rightarrow> Inl (KeyError, n)
           | Some v \<Rightarrow>
               (case py_setitem (children_policy n) (int i) v of
                  Inl e \<Rightarrow> Inl (e, n)
                | Inr pols \<Rightarrow> update_policy_loop policy rest (n\<lparr>children_policy := pols\<rparr>))))"

definition update_policy :: "policy_map \<Rightarrow> MCTSNode \<Rightarrow> (error \<times> MCTSNode) + MCTSNode" where
  "update_policy policy n = update_policy_loop policy [0..<num_children n] n"

definition set_leaf_value :: "int \<Rightarrow> real \<Rightarrow> MCTSNode \<Rightarrow> (error \<times> MCTSNode) + MCTSNode" where
  "set_leaf_value index v n =
     (case py_setitem (children_value n) index v of
        Inl e \<Rightarrow> Inl (e, n)
      | Inr vs \<Rightarrow> Inr (n\<lparr>children_value := vs\<rparr>))"

text \<open>
  \<open>children_value_sum[index] += value\<close> is an addition of float64 values, the two counters
  are int32 slots.
\<close>

definition update_child_value ::
  "(real \<Rightarrow> real \<Rightarrow> real) \<Rightarrow> int \<Rightarrow> real \<Rightarrow> MCTSNode \<Rightarrow> (error \<times> MCTSNode) + MCTSNode" where
  "update_child_value float64_add index v n =
     (case py_augitem (children_value_sum n) index (\<lambda>x. float64_add x v) of
        Inl e \<Rightarrow> Inl (e, n)
      | Inr acc \<Rightarrow>
          (case py_augitem (children_visits n) index (\<lambda>x. x + 1) of
             Inl e \<Rightarrow> Inl (e, n\<lparr>children_value_sum := acc\<rparr>)
           | Inr visits \<Rightarrow>
               (case py_augitem (children_virtual_loss n) index (\<lambda>x. x - 1) of
                  Inl e \<Rightarrow> Inl (e, n\<lparr>children_value_sum := acc, children_visits := visits\<rparr>)
                | Inr vls \<Rightarrow>
                    Inr (n\<lparr>children_value_sum := acc, children_visits := visits,
                           children_virtual_loss := vls\<rparr>))))"

text \<open>
  \<open>node_value_sum += value\<close> is an addition of Python floats, the two counters are Python
  integers.
\<close>

definition update_node_value :: "(real \<Rightarrow> real \<Rightarrow> real) \<Rightarrow> real \<Rightarrow> MCTSNode \<Rightarrow> MCTSNode" where
  "update_node_value float64_add v n =
     n\<lparr>node_value_sum := float64_add (node_value_sum n) v,
       node_visits := node_visits n + 1,
       virtual_loss := virtual_loss n - 1\<rparr>"

text \<open>
  \<open>calculate_pucb_value\<close> lives in mcts/pucb/pucb.py, which is not among the sources:
  \<open>select_next_action\<close> takes the evaluator as a parameter. It receives the parent total, the
  element-wise sums of the two int32 arrays (wrapping), the value sums and the element-wise
  sums of prior and noise; the first \<open>num_children\<close> scores go to \<open>argmax\<close>. The arrays of a
  node are created with one length and never resized, so the sums are taken slot by slot.
\<close>

type_synonym pucb_evaluator = "int \<Rightarrow> 32 word list \<Rightarrow> real list \<Rightarrow> real list \<Rightarrow> real list"

definition select_next_action :: "pucb_evaluator \<Rightarrow> MCTSNode \<Rightarrow> error + nat" where
  "select_next_action pucb n =
     (let pucb_values =
            pucb (node_visits n + virtual_loss n)
              (map2 (+) (children_visits n) (children_virtual_loss n))
              (children_value_sum n)
              (map2 (+) (children_policy n) (noise n))
      in np_argmax (take (num_children n) pucb_values))"

definition get_num_children :: "MCTSNode \<Rightarrow> nat" where
  "get_num_children n = num_children n"

text \<open>The visit counts are int32: \<open>argmax\<close> compares them as signed numbers.\<close>

definition get_best_move_index :: "MCTSNode \<Rightarrow> error + nat" where
  "get_best_move_index n = np_argmax (map sint (take (num_children n) (children_visits n)))"

definition get_best_move :: "MCTSNode \<Rightarrow> error + int" where
  "get_best_move n =
     (case get_best_move_index n of
        Inl e \<Rightarrow> Inl e
      | Inr k \<Rightarrow> py_getitem (action n) (int k))"

definition get_child_move :: "int \<Rightarrow> MCTSNode \<Rightarrow> error + int" where
  "get_child_move index n = py_getitem (action n) index"

definition get_child_index :: "int \<Rightarrow> MCTSNode \<Rightarrow> error + 32 word" where
  "get_child_index index n = py_getitem (children_index n) index"

definition set_child_index :: "int \<Rightarrow> 32 word \<Rightarrow> MCTSNode \<Rightarrow> (error \<times> MCTSNode) + MCTSNode" where
  "set_child_index index child_index n =
     (case py_setitem (children_index n) index child_index of
        Inl e \<Rightarrow> Inl (e, n)
      | Inr cs \<Rightarrow> Inr (n\<lparr>children_index := cs\<rparr>))"

text \<open>
  What every node built by the constructor and changed only through the methods satisfies:
  the seven arrays share the length they were created with, and \<open>num_children\<close>, the number
  of items \<open>set_policy\<close> managed to install, exceeds neither that length nor the length of
  \<open>action\<close>.
\<close>

definition node_wf :: "MCTSNode \<Rightarrow> bool" where
  "node_wf n \<longleftrightarrow>
     length (children_index n) = length (children_policy n) \<and>
     length (children_value n) = length (children_policy n) \<and>
     length (children_visits n) = length (children_policy n) \<and>
     length (children_virtual_loss n) = length (children_policy n) \<and>
     length (children_value_sum n) = length (children_policy n) \<and>
     length (noise n) = length (children_policy n) \<and>
     num_children n \<le> length (children_policy n) \<and>
     num_children n \<le> length (action n)"

text \<open>An evaluator that scores each child from the parent total and that child's own inputs.\<close>

definition elementwise :: "(int \<Rightarrow> 32 word \<Rightarrow> real \<Rightarrow> real \<Rightarrow> real) \<Rightarrow> pucb_evaluator" where
  "elementwise g N ns ws ps = map (\<lambda>(n, w, p). g N n w p) (zip ns (zip ws ps))"

text \<open>
  Modelled from the spec: \<open>calculate_pucb_value\<close> (mcts/pucb/pucb.py) is missing from the
  sources. The specification asks for a pure function of the parent visit count \<open>N\<close>, the
  child visit counts \<open>n_i\<close>, the accumulated values \<open>w_i\<close> and the exploration weights \<open>p_i\<close>:
  visited children blend the mean value \<open>w_i / n_i\<close> with an exploration term proportional to
  \<open>p_i * sqrt(N) / (1 + n_i)\<close>, scaled by a fixed constant \<open>c\<close>; unvisited children get the
  exploration term alone, with no division by zero.
\<close>

definition pucb_score :: "real \<Rightarrow> int \<Rightarrow> int \<Rightarrow> real \<Rightarrow> real \<Rightarrow> real" where
  "pucb_score c N n w p =
     (if n = 0 then 0 else w / real_of_int n) + c * p * sqrt (real_of_int N) / (1 + real_of_int n)"

definition calculate_pucb_value :: "real \<Rightarrow> pucb_evaluator" where
  "calculate_pucb_value c = elementwise (\<lambda>N n w p. pucb_score c N (sint n) w p)"


text \<open>
  A small node for concrete checks: what \<open>MCTSNode(num_actions=3)\<close> holds after
  \<open>set_policy({10: 0.5, 20: 0.3, 30: 0.2})\<close>.
\<close>

definition example_node :: MCTSNode where
  "example_node =
     \<lparr>node_visits = 0, virtual_loss = 0, node_value_sum = 0,
      action = [10, 20, 30],
      children_index = [0, 0, 0],
      children_value = [0, 0, 0],
      children_visits = [0, 0, 0],
      children_policy = [1 / 2, 3 / 10, 1 / 5],
      children_virtual_loss = [0, 0, 0],
      children_value_sum = [0, 0, 0],
      noise = [0, 0, 0],
      num_children = 3\<rparr>"

text \<open>The same node with the two int32 counters of its first child at the largest int32.\<close>

definition saturated_node :: MCTSNode where
  "saturated_node =
     example_node\<lparr>children_visits := [2147483647, 0, 0],
                  children_virtual_loss := [2147483647, 0, 0]\<rparr>"


section \<open>Facts about the primitives\<close>

lemma py_index_in_range: "0 \<le> i \<Longrightarrow> i < int len \<Longrightarrow> py_index len i = Inr (nat i)"
  by (simp add: py_index_def)

lemma py_index_of_nat: "k < len \<Longrightarrow> py_index len (int k) = Inr k"
  by (simp add: py_index_def)

lemma py_index_bound: "py_index len i = Inr j \<Longrightarrow> j < len"
  by (auto simp: py_index_def Let_def split: if_splits)


lemma argmax_scan_spec:
  assumes "length pre = i" and "b < i" and "pre ! b = m"
    and "\<forall>j<i. pre ! j \<le> m" and "\<forall>j<b. pre ! j < m"
  shows "argmax_scan xs i b m < length (pre @ xs) \<and>
         (\<forall>j<length (pre @ xs). (pre @ xs) ! j \<le> (pre @ xs) ! argmax_scan xs i b m) \<and>
         (\<forall>j<argmax_scan xs i b m. (pre @ xs) ! j < (pre @ xs) ! argmax_scan xs i b m)"
  using assms
proof (induction xs arbitrary: pre i b m)
  case Nil
  then show ?case by simp
next
  case (Cons x xs)
  let ?pre = "pre @ [x]"
  have len: "length ?pre = i + 1" using Cons.prems(1) by simp
  show ?case
  proof (cases "m < x")
    case True
    have a: "i < i + 1" by simp
    have b: "?pre ! i = x" using Cons.prems(1) by (simp add: nth_append)
    have c: "\<forall>j<i + 1. ?pre ! j \<le> x"
      using Cons.prems(1,4) True by (auto simp: nth_append less_Suc_eq)
    have d: "\<forall>j<i. ?pre ! j < x"
      using Cons.prems(1,4) True by (auto simp: nth_append)
    from Cons.IH [OF len a b c d] True show ?thesis by simp
  next
    case False
    have a: "b < i + 1" using Cons.prems(2) by simp
    have b: "?pre ! b = m" using Cons.prems(1,2,3) by (simp add: nth_append)
    have c: "\<forall>j<i + 1. ?pre ! j \<le> m"
      using Cons.prems(1,4) False by (auto simp: nth_append less_Suc_eq)
    have d: "\<forall>j<b. ?pre ! j < m"
      using Cons.prems(1,2,5) by (auto simp: nth_append)
    from Cons.IH [OF len a b c d] False show ?thesis by simp
  qed
qed

lemma np_argmax_empty: "np_argmax [] = Inl ValueError"
  by (simp add: np_argmax_def)

lemma np_argmax_spec:
  assumes "xs \<noteq> []"
  shows "\<exists>k. np_argmax xs = Inr k \<and> k < length xs \<and>
             (\<forall>j<length xs. xs ! j \<le> xs ! k) \<and> (\<forall>j<k. xs ! j < xs ! k)"
proof -
  from assms obtain x rest where xs: "xs = x # rest" by (cases xs) auto
  have "argmax_scan rest 1 0 x < length ([x] @ rest) \<and>
         (\<forall>j<length ([x] @ rest). ([x] @ rest) ! j \<le> ([x] @ rest) ! argmax_scan rest 1 0 x) \<and>
         (\<forall>j<argmax_scan rest 1 0 x. ([x] @ rest) ! j < ([x] @ rest) ! argmax_scan rest 1 0 x)"
    by (rule argmax_scan_spec) simp_all
  then show ?thesis by (simp add: xs np_argmax_def)
qed

lemma np_argmax_unique:
  assumes "k < length xs" and "\<forall>j<length xs. xs ! j \<le> xs ! k" and "\<forall>j<k. xs ! j < xs ! k"
  shows "np_argmax xs = Inr k"
proof -
  have "xs \<noteq> []" using assms(1) by auto
  from np_argmax_spec [OF this] obtain k' where k': "np_argmax xs = Inr k'" "k' < length xs"
    "\<forall>j<length xs. xs ! j \<le> xs ! k'" "\<forall>j<k'. xs ! j < xs ! k'" by blast
  have "k' = k"
  proof (rule ccontr)
    assume "k' \<noteq> k"
    then consider "k' < k" | "k < k'" by linarith
    then show False
    proof cases
      case 1 then show ?thesis using assms(3) k'(3) assms(1) by (meson leD less_trans)
    next
      case 2 then show ?thesis using k'(4) assms(2) k'(2) by (meson leD)
    qed
  qed
  then show ?thesis using k'(1) by simp
qed


lemma sint32_succ:
  fixes x :: "32 word"
  assumes "sint x < 2 ^ 31 - 1"
  shows "sint (x + 1) = sint x + 1"
proof -
  have lo: "- (2 ^ 31) \<le> sint x" using sint_ge [of x] by simp
  have "sint (x + 1) = signed_take_bit 31 (sint x + 1)"
    by (simp add: sint_word_ariths)
  also have "\<dots> = sint x + 1"
    using lo assms by (intro signed_take_bit_int_eq_self) simp_all
  finally show ?thesis .
qed

lemma sint32_succ_wrap:
  fixes x :: "32 word"
  shows "sint (x + 1) = (if sint x = 2 ^ 31 - 1 then - (2 ^ 31) else sint x + 1)"
proof (cases "sint x = 2 ^ 31 - 1")
  case True
  have "x = word_of_int (sint x)" by simp
  then have "x = 2147483647" using True by simp
  then show ?thesis by simp
next
  case False
  moreover have "sint x < 2 ^ 31" using sint_lt [of x] by simp
  ultimately have "sint x < 2 ^ 31 - 1" by linarith
  then show ?thesis using False by (simp add: sint32_succ)
qed


section \<open>The ledger\<close>

lemma Record_init_wf: "record_wf MAX_RECORDS (Record_init MAX_RECORDS PASS)"
  by (simp add: record_wf_def Record_init_def)

lemma clear_wf: "record_wf MAX_RECORDS r \<Longrightarrow> record_wf MAX_RECORDS (clear MAX_RECORDS PASS r)"
  by (simp add: record_wf_def clear_def)

lemma save_wf:
  "record_wf MAX_RECORDS r \<Longrightarrow> save MAX_RECORDS r moves c p h = Inr (r', out) \<Longrightarrow>
   record_wf MAX_RECORDS r'"
  by (auto simp: record_wf_def save_def py_setitem_def split: if_splits sum.splits)

lemma save_in_range:
  assumes "record_wf MAX_RECORDS r" and "0 \<le> moves" and "moves < int MAX_RECORDS"
  shows "save MAX_RECORDS r moves c p h =
           Inr (r\<lparr>color := (color r)[nat moves := c], pos := (pos r)[nat moves := p],
                  hash_value := (hash_value r)[nat moves := h]\<rparr>, [])"
  using assms by (simp add: save_def py_setitem_def py_index_in_range record_wf_def)

text \<open>
  C2. On a ledger of capacity \<open>MAX_RECORDS\<close>: for \<open>0 \<le> moves < MAX_RECORDS\<close>, \<open>save\<close>
  returns normally, prints nothing, and \<open>get\<close> at the same move number gives back exactly the
  saved colour, position and hash; for \<open>moves \<ge> MAX_RECORDS\<close>, \<open>save\<close> returns normally
  with the ledger unchanged and one line on the error stream.
\<close>

theorem save_then_get:
  assumes "record_wf MAX_RECORDS r"
  shows "(0 \<le> moves \<and> moves < int MAX_RECORDS \<longrightarrow>
            (\<exists>r'. save MAX_RECORDS r moves c p h = Inr (r', []) \<and> get r' moves = Inr (c, p, h)))
         \<and> (int MAX_RECORDS \<le> moves \<longrightarrow>
            save MAX_RECORDS r moves c p h = Inr (r, [''Cannot save move record.'']))"
proof (intro conjI impI)
  assume range: "0 \<le> moves \<and> moves < int MAX_RECORDS"
  let ?r' = "r\<lparr>color := (color r)[nat moves := c], pos := (pos r)[nat moves := p],
               hash_value := (hash_value r)[nat moves := h]\<rparr>"
  have "save MAX_RECORDS r moves c p h = Inr (?r', [])"
    using assms range by (simp add: save_in_range)
  moreover have "get ?r' moves = Inr (c, p, h)"
    using assms range by (auto simp: get_def py_getitem_def py_index_in_range record_wf_def)
  ultimately show "\<exists>r'. save MAX_RECORDS r moves c p h = Inr (r', []) \<and> get r' moves = Inr (c, p, h)"
    by blast
next
  assume "int MAX_RECORDS \<le> moves"
  then show "save MAX_RECORDS r moves c p h = Inr (r, [''Cannot save move record.''])"
    by (simp add: save_def)
qed

theorem save_then_get_witness:
  "record_wf 3 (Record_init 3 0)
   \<and> (\<exists>r'. save 3 (Record_init 3 0) 1 WHITE 5 0xDEF = Inr (r', []) \<and> get r' 1 = Inr (WHITE, 5, 0xDEF))
   \<and> save 3 (Record_init 3 0) 3 BLACK 6 0x111 = Inr (Record_init 3 0, [''Cannot save move record.''])"
  using save_then_get [of 3 "Record_init 3 0" 1 WHITE 5 "0xDEF"]
    save_then_get [of 3 "Record_init 3 0" 3 BLACK 6 "0x111"]
  by (simp add: Record_init_wf)



lemma has_same_hash_iff: "has_same_hash r h \<longleftrightarrow> (\<exists>i<length (hash_value r). hash_value r ! i = h)"
  by (auto simp: has_same_hash_def list_ex_iff in_set_conv_nth)

lemma save_keeps_slot:
  assumes "record_wf MAX_RECORDS r" and "j < MAX_RECORDS" and "hash_value r ! j = h"
    and "0 \<le> moves" and "nat moves \<noteq> j \<or> h' = h"
  shows "\<exists>r' out. save MAX_RECORDS r moves c p h' = Inr (r', out) \<and> record_wf MAX_RECORDS r' \<and>
           hash_value r' ! j = h"
proof (cases "moves < int MAX_RECORDS")
  case True
  then have "save MAX_RECORDS r moves c p h' =
           Inr (r\<lparr>color := (color r)[nat moves := c], pos := (pos r)[nat moves := p],
                  hash_value := (hash_value r)[nat moves := h']\<rparr>, [])"
    using assms(1,4) by (simp add: save_in_range)
  moreover have "((hash_value r)[nat moves := h']) ! j = h"
  proof (cases "nat moves = j")
    case True
    then have "h' = h" using assms(5) by simp
    then show ?thesis using True assms(1,2) by (simp add: record_wf_def)
  next
    case False
    then show ?thesis using assms(3) by simp
  qed
  ultimately show ?thesis using assms(1) by (simp add: record_wf_def)
next
  case False
  then show ?thesis using assms(1,3) by (simp add: save_def)
qed

lemma save_all_keeps_slot:
  assumes "record_wf MAX_RECORDS r" and "j < MAX_RECORDS" and "hash_value r ! j = h"
    and "\<forall>(moves, c, p, h') \<in> set later. 0 \<le> moves \<and> (nat moves \<noteq> j \<or> h' = h)"
  shows "\<exists>r' out. save_all MAX_RECORDS r later = Inr (r', out) \<and> record_wf MAX_RECORDS r' \<and>
           hash_value r' ! j = h"
  using assms
proof (induction later arbitrary: r)
  case Nil
  then show ?case by simp
next
  case (Cons call rest)
  obtain moves c p h' where call: "call = (moves, c, p, h')" by (cases call)
  have here: "0 \<le> moves" "nat moves \<noteq> j \<or> h' = h"
    using Cons.prems(4) by (simp_all add: call)
  from save_keeps_slot [OF Cons.prems(1,2,3) here]
  obtain r1 out1 where r1: "save MAX_RECORDS r moves c p h' = Inr (r1, out1)"
    "record_wf MAX_RECORDS r1" "hash_value r1 ! j = h" by blast
  have "\<forall>(moves, c, p, h') \<in> set rest. 0 \<le> moves \<and> (nat moves \<noteq> j \<or> h' = h)"
    using Cons.prems(4) by simp
  from Cons.IH [OF r1(2) Cons.prems(2) r1(3) this]
  obtain r2 out2 where r2: "save_all MAX_RECORDS r1 rest = Inr (r2, out2)"
    "record_wf MAX_RECORDS r2" "hash_value r2 ! j = h" by blast
  show ?case using r1 r2 by (simp add: call)
qed

text \<open>
  C7. \<open>has_same_hash(h)\<close> is true exactly when one of the \<open>MAX_RECORDS\<close> slots holds
  \<open>h\<close>, empty slots included, so that on a fresh or cleared ledger of positive capacity
  \<open>has_same_hash(0)\<close> is true; it is true right after a \<open>save\<close> that wrote \<open>h\<close> at a move
  number within range. As claimed it would then stay true until \<open>clear\<close>; what holds is
  that it stays true through any run of later \<open>save\<close> calls whose move numbers are
  non-negative and differ from the one \<open>h\<close> was saved at (or that write \<open>h\<close> again). A later
  \<open>save\<close> at the same move number with another hash replaces \<open>h\<close>, as the second theorem
  shows on a ledger of capacity 3.
\<close>

theorem has_same_hash_after_save:
  assumes "record_wf MAX_RECORDS r"
  shows "(has_same_hash r h \<longleftrightarrow> (\<exists>i<MAX_RECORDS. hash_value r ! i = h))
         \<and> (0 < MAX_RECORDS \<longrightarrow>
              has_same_hash (Record_init MAX_RECORDS PASS) 0 \<and>
              has_same_hash (clear MAX_RECORDS PASS r) 0)
         \<and> (0 \<le> moves \<and> moves < int MAX_RECORDS \<longrightarrow>
              (\<exists>r'. save MAX_RECORDS r moves c p h = Inr (r', []) \<and> has_same_hash r' h \<and>
                 (\<forall>later. (\<forall>(moves', c', p', h') \<in> set later.
                              0 \<le> moves' \<and> (moves' \<noteq> moves \<or> h' = h)) \<longrightarrow>
                    (\<exists>r'' out. save_all MAX_RECORDS r' later = Inr (r'', out) \<and>
                        has_same_hash r'' h))))"
proof (intro conjI impI)
  show "has_same_hash r h \<longleftrightarrow> (\<exists>i<MAX_RECORDS. hash_value r ! i = h)"
    using assms by (simp add: has_same_hash_iff record_wf_def)
next
  assume pos: "0 < MAX_RECORDS"
  show "has_same_hash (Record_init MAX_RECORDS PASS) 0"
    using pos by (auto simp: has_same_hash_iff Record_init_def)
  show "has_same_hash (clear MAX_RECORDS PASS r) 0"
    using pos assms by (auto simp: has_same_hash_iff clear_def record_wf_def)
next
  assume range: "0 \<le> moves \<and> moves < int MAX_RECORDS"
  let ?j = "nat moves"
  let ?r' = "r\<lparr>color := (color r)[?j := c], pos := (pos r)[?j := p],
               hash_value := (hash_value r)[?j := h]\<rparr>"
  have j: "?j < MAX_RECORDS" using range by linarith
  have sv: "save MAX_RECORDS r moves c p h = Inr (?r', [])"
    using assms range by (simp add: save_in_range)
  have wf': "record_wf MAX_RECORDS ?r'" using assms by (simp add: record_wf_def)
  have slot: "hash_value ?r' ! ?j = h" using assms j by (simp add: record_wf_def)
  have now: "has_same_hash ?r' h"
    using wf' slot j by (auto simp: has_same_hash_iff record_wf_def)
  have later: "\<exists>r'' out. save_all MAX_RECORDS ?r' later = Inr (r'', out) \<and> has_same_hash r'' h"
    if ok: "\<forall>(moves', c', p', h') \<in> set later. 0 \<le> moves' \<and> (moves' \<noteq> moves \<or> h' = h)" for later
  proof -
    have "\<forall>(moves', c', p', h') \<in> set later. 0 \<le> moves' \<and> (nat moves' \<noteq> ?j \<or> h' = h)"
      using ok range by fastforce
    from save_all_keeps_slot [OF wf' j slot this]
    obtain r'' out where "save_all MAX_RECORDS ?r' later = Inr (r'', out)"
      "record_wf MAX_RECORDS r''" "hash_value r'' ! ?j = h" by blast
    then show ?thesis using j by (auto simp: has_same_hash_iff record_wf_def)
  qed
  show "\<exists>r'. save MAX_RECORDS r moves c p h = Inr (r', []) \<and> has_same_hash r' h \<and>
                 (\<forall>later. (\<forall>(moves', c', p', h') \<in> set later.
                              0 \<le> moves' \<and> (moves' \<noteq> moves \<or> h' = h)) \<longrightarrow>
                    (\<exists>r'' out. save_all MAX_RECORDS r' later = Inr (r'', out) \<and>
                        has_same_hash r'' h))"
    using sv now later by blast
qed


theorem has_same_hash_after_save_witness:
  "record_wf 3 (Record_init 3 0) \<and> has_same_hash (Record_init 3 0) 0 \<and>
   (\<exists>r'. save 3 (Record_init 3 0) 1 WHITE 5 0xDEF = Inr (r', []) \<and> has_same_hash r' 0xDEF \<and>
      (\<exists>r'' out. save_all 3 r' [(0, BLACK, 4, 0xABC), (3, BLACK, 6, 0x111)] = Inr (r'', out) \<and>
         has_same_hash r'' 0xDEF))"
proof -
  note inst = has_same_hash_after_save
    [OF Record_init_wf, where MAX_RECORDS = 3 and PASS = 0 and moves = 1
       and c = WHITE and p = 5 and h = "0xDEF"]
  have zero: "has_same_hash (Record_init 3 0) 0"
    using inst by simp
  have range: "(0::int) \<le> 1 \<and> 1 < int 3" by simp
  have later: "\<forall>(moves', c', p', h') \<in> set [(0, BLACK, 4, 0xABC), (3, BLACK, 6, 0x111 :: 64 word)].
                 0 \<le> moves' \<and> (moves' \<noteq> (1::int) \<or> h' = 0xDEF)"
    by simp
  from inst range obtain r' where r': "save 3 (Record_init 3 0) 1 WHITE 5 0xDEF = Inr (r', [])"
    "has_same_hash r' 0xDEF"
    "\<forall>later. (\<forall>(moves', c', p', h') \<in> set later. 0 \<le> moves' \<and> (moves' \<noteq> 1 \<or> h' = 0xDEF)) \<longrightarrow>
       (\<exists>r'' out. save_all 3 r' later = Inr (r'', out) \<and> has_same_hash r'' 0xDEF)"
    by blast
  from r'(3) later
  have "\<exists>r'' out. save_all 3 r' [(0, BLACK, 4, 0xABC), (3, BLACK, 6, 0x111)] = Inr (r'', out) \<and>
          has_same_hash r'' 0xDEF"
    by blast
  with r'(1,2) zero Record_init_wf [of 3 0] show ?thesis by blast
qed

text \<open>
  On a ledger of capacity 3: \<open>save(0, BLACK, 4, 0xABC)\<close> makes \<open>has_same_hash(0xABC)\<close>
  true, and \<open>save(0, WHITE, 5, 0xDEF)\<close>, with no \<open>clear\<close> in between, makes it false.
\<close>

theorem has_same_hash_overwritten:
  "save 3 (Record_init 3 0) 0 BLACK 4 0xABC
     = Inr (\<lparr>color = [BLACK, EMPTY, EMPTY], pos = [4, 0, 0], hash_value = [0xABC, 0, 0]\<rparr>, [])
   \<and> has_same_hash \<lparr>color = [BLACK, EMPTY, EMPTY], pos = [4, 0, 0], hash_value = [0xABC, 0, 0]\<rparr> 0xABC
   \<and> save 3 \<lparr>color = [BLACK, EMPTY, EMPTY], pos = [4, 0, 0], hash_value = [0xABC, 0, 0]\<rparr> 0 WHITE 5 0xDEF
     = Inr (\<lparr>color = [WHITE, EMPTY, EMPTY], pos = [5, 0, 0], hash_value = [0xDEF, 0, 0]\<rparr>, [])
   \<and> \<not> has_same_hash \<lparr>color = [WHITE, EMPTY, EMPTY], pos = [5, 0, 0], hash_value = [0xDEF, 0, 0]\<rparr> 0xABC"
  by (simp add: save_def Record_init_def py_setitem_def py_index_def has_same_hash_def numeral_3_eq_3)



text \<open>The ledger scenario of the specification, on a ledger of capacity 3.\<close>

lemma ledger_scenario:
  "save_all 3 (Record_init 3 PASS) [(0, BLACK, 4, 0xABC), (1, WHITE, 5, 0xDEF), (3, BLACK, 6, 0x111)]
     = Inr (\<lparr>color = [BLACK, WHITE, EMPTY], pos = [4, 5, PASS], hash_value = [0xABC, 0xDEF, 0]\<rparr>,
            [''Cannot save move record.''])
   \<and> has_same_hash \<lparr>color = [BLACK, WHITE, EMPTY], pos = [4, 5, PASS], hash_value = [0xABC, 0xDEF, 0]\<rparr> 0xDEF
   \<and> \<not> has_same_hash \<lparr>color = [BLACK, WHITE, EMPTY], pos = [4, 5, PASS], hash_value = [0xABC, 0xDEF, 0]\<rparr> 0x999"
  by (simp add: save_def Record_init_def py_setitem_def py_index_def has_same_hash_def numeral_3_eq_3)


section \<open>The search node\<close>

lemma example_node_built:
  "\<exists>m. MCTSNode_init 3 = Inr m \<and>
       set_policy [(10, 1 / 2), (20, 3 / 10), (30, 1 / 5)] m = Inr example_node"
  by (simp add: MCTSNode_init_def set_policy_def py_setitem_def py_index_def example_node_def
      numeral_3_eq_3)

lemma example_node_wf: "node_wf example_node"
  by (simp add: node_wf_def example_node_def)

lemma set_policy_loop_ok:
  assumes "index + length pm \<le> length (action n)"
    and "index + length pm \<le> length (children_policy n)"
  shows "set_policy_loop pm index n =
           Inr (index + length pm,
                n\<lparr>action := take index (action n) @ map fst pm @ drop (index + length pm) (action n),
                  children_policy :=
                    take index (children_policy n) @ map snd pm
                      @ drop (index + length pm) (children_policy n)\<rparr>)"
  using assms
proof (induction pm arbitrary: index n)
  case Nil
  then show ?case by simp
next
  case (Cons item rest)
  obtain a p where item: "item = (a, p)" by (cases item)
  have ia: "index < length (action n)" and ip: "index < length (children_policy n)"
    using Cons.prems by simp_all
  let ?n1 = "n\<lparr>action := (action n)[index := a],
                children_policy := (children_policy n)[index := p]\<rparr>"
  have step: "set_policy_loop (item # rest) index n = set_policy_loop rest (index + 1) ?n1"
    using ia ip by (simp add: item py_setitem_def py_index_of_nat)
  have "set_policy_loop rest (index + 1) ?n1 =
          Inr (index + 1 + length rest,
               ?n1\<lparr>action := take (index + 1) (action ?n1) @ map fst rest
                                 @ drop (index + 1 + length rest) (action ?n1),
                    children_policy := take (index + 1) (children_policy ?n1) @ map snd rest
                                 @ drop (index + 1 + length rest) (children_policy ?n1)\<rparr>)"
    using Cons.prems by (intro Cons.IH) simp_all
  moreover have "take (index + 1) ((action n)[index := a]) = take index (action n) @ [a]"
    using ia by (simp add: take_Suc_conv_app_nth)
  moreover have "take (index + 1) ((children_policy n)[index := p]) = take index (children_policy n) @ [p]"
    using ip by (simp add: take_Suc_conv_app_nth)
  ultimately show ?case
    unfolding step by (simp add: item)
qed

lemma expand_ok:
  assumes "length pm \<le> MAX_ACTIONS BOARD_SIZE" and "length pm \<le> length (children_policy n)"
  shows "expand BOARD_SIZE NOT_EXPANDED pm n =
           Inr (n\<lparr>node_visits := 0, node_value_sum := 0, virtual_loss := 0,
                  action := map fst pm @ replicate (MAX_ACTIONS BOARD_SIZE - length pm) 0,
                  children_index := replicate (length (children_index n)) NOT_EXPANDED,
                  children_value := replicate (length (children_value n)) 0,
                  children_visits := replicate (length (children_visits n)) 0,
                  children_virtual_loss := replicate (length (children_virtual_loss n)) 0,
                  children_value_sum := replicate (length (children_value_sum n)) 0,
                  noise := replicate (length (noise n)) 0,
                  children_policy := map snd pm @ drop (length pm) (children_policy n),
                  num_children := length pm\<rparr>)"
  using assms by (simp add: expand_def set_policy_def set_policy_loop_ok)

lemma expand_wf:
  assumes "node_wf n" and "expand BOARD_SIZE NOT_EXPANDED pm n = Inr n'"
    and "length pm \<le> MAX_ACTIONS BOARD_SIZE" and "length pm \<le> length (children_policy n)"
  shows "node_wf n'"
  using assms by (auto simp: expand_ok node_wf_def)

text \<open>The state after \<open>expand\<close>, field by field; the slots of \<open>children_policy\<close> beyond the
  installed ones keep what they held.\<close>

lemma expand_state:
  assumes "length pm \<le> MAX_ACTIONS BOARD_SIZE" and "length pm \<le> length (children_policy n)"
    and "node_wf n"
  shows "\<exists>n'. expand BOARD_SIZE NOT_EXPANDED pm n = Inr n' \<and>
           num_children n' = length pm \<and>
           (\<forall>i<length pm. action n' ! i = fst (pm ! i) \<and> children_policy n' ! i = snd (pm ! i)) \<and>
           node_visits n' = 0 \<and> node_value_sum n' = 0 \<and> virtual_loss n' = 0 \<and>
           (\<forall>i<length (children_policy n).
              children_index n' ! i = NOT_EXPANDED \<and> children_value n' ! i = 0 \<and>
              children_visits n' ! i = 0 \<and> children_virtual_loss n' ! i = 0 \<and>
              children_value_sum n' ! i = 0 \<and> noise n' ! i = 0) \<and>
           (\<forall>i. length pm \<le> i \<and> i < length (children_policy n) \<longrightarrow>
              children_policy n' ! i = children_policy n ! i)"
  using assms by (simp add: expand_ok node_wf_def nth_append)

text \<open>The methods keep a node consistent.\<close>

lemma MCTSNode_init_wf: "MCTSNode_init num_actions = Inr n \<Longrightarrow> node_wf n"
  by (auto simp: MCTSNode_init_def node_wf_def split: if_splits)

lemma add_virtual_loss_wf: "node_wf n \<Longrightarrow> add_virtual_loss index n = Inr n' \<Longrightarrow> node_wf n'"
  by (auto simp: add_virtual_loss_def py_augitem_def node_wf_def Let_def split: sum.splits)

lemma update_child_value_wf:
  "node_wf n \<Longrightarrow> update_child_value float64_add index v n = Inr n' \<Longrightarrow> node_wf n'"
  by (auto simp: update_child_value_def py_augitem_def node_wf_def split: sum.splits)

lemma update_node_value_wf: "node_wf n \<Longrightarrow> node_wf (update_node_value float64_add v n)"
  by (simp add: update_node_value_def node_wf_def)

lemma elementwise_length:
  "length (elementwise g N ns ws ps) = min (length ns) (min (length ws) (length ps))"
  by (simp add: elementwise_def)

lemma elementwise_nth:
  assumes "j < length ns" and "j < length ws" and "j < length ps"
  shows "elementwise g N ns ws ps ! j = g N (ns ! j) (ws ! j) (ps ! j)"
  using assms by (simp add: elementwise_def)

lemma fresh_pair_selects_first:
  assumes "2 \<le> length (children_policy m)" and "node_wf m" and "1 \<le> BOARD_SIZE"
  shows "\<exists>m'. expand BOARD_SIZE NOT_EXPANDED [(A, p), (B, p)] m = Inr m' \<and>
           select_next_action (elementwise g) m' = Inr 0"
proof -
  let ?L = "length (children_policy m)"
  have cap: "2 \<le> MAX_ACTIONS BOARD_SIZE"
    using assms(3) by (simp add: MAX_ACTIONS_def Suc_le_eq)
  let ?m' = "m\<lparr>node_visits := 0, node_value_sum := 0, virtual_loss := 0,
                  action := map fst [(A, p), (B, p)] @ replicate (MAX_ACTIONS BOARD_SIZE - length [(A, p), (B, p)]) 0,
                  children_index := replicate (length (children_index m)) NOT_EXPANDED,
                  children_value := replicate (length (children_value m)) 0,
                  children_visits := replicate (length (children_visits m)) 0,
                  children_virtual_loss := replicate (length (children_virtual_loss m)) 0,
                  children_value_sum := replicate (length (children_value_sum m)) 0,
                  noise := replicate (length (noise m)) 0,
                  children_policy := map snd [(A, p), (B, p)] @ drop (length [(A, p), (B, p)]) (children_policy m),
                  num_children := length [(A, p), (B, p)]\<rparr>"
  have ex: "expand BOARD_SIZE NOT_EXPANDED [(A, p), (B, p)] m = Inr ?m'"
    using cap assms(1) by (intro expand_ok) simp_all
  have lens: "length (children_visits m) = ?L" "length (children_virtual_loss m) = ?L"
    "length (children_value_sum m) = ?L" "length (noise m) = ?L"
    using assms(2) by (simp_all add: node_wf_def)
  let ?ns = "map2 (+) (children_visits ?m') (children_virtual_loss ?m')"
  let ?ps = "map2 (+) (children_policy ?m') (noise ?m')"
  let ?scores = "take (num_children ?m')
       (elementwise g (node_visits ?m' + virtual_loss ?m') ?ns (children_value_sum ?m') ?ps)"
  have l_ns: "length ?ns = ?L" and l_ps: "length ?ps = ?L" and l_ws: "length (children_value_sum ?m') = ?L"
    using assms(1) lens by simp_all
  have len: "length ?scores = 2"
    using assms(1) l_ns l_ps l_ws by (simp add: elementwise_length)
  have val: "?scores ! j = g 0 0 0 p" if "j < 2" for j
  proof -
    have jL: "j < ?L" using that assms(1) by simp
    have "?scores ! j = elementwise g (node_visits ?m' + virtual_loss ?m') ?ns (children_value_sum ?m') ?ps ! j"
      using that by simp
    also have "\<dots> = g (node_visits ?m' + virtual_loss ?m') (?ns ! j) (children_value_sum ?m' ! j) (?ps ! j)"
      using jL l_ns l_ps l_ws by (intro elementwise_nth) simp_all
    also have "?ns ! j = 0" using jL lens by simp
    also have "children_value_sum ?m' ! j = 0" using jL lens by simp
    also have "?ps ! j = p"
    proof -
      have "j = 0 \<or> j = 1" using that by linarith
      then have "children_policy ?m' ! j = p" by auto
      moreover have "noise ?m' ! j = 0" using jL lens by simp
      moreover have "?ps ! j = children_policy ?m' ! j + noise ?m' ! j"
        using jL lens assms(1) by simp
      ultimately show ?thesis by simp
    qed
    finally show ?thesis by simp
  qed
  have "np_argmax ?scores = Inr 0"
  proof (rule np_argmax_unique)
    show "0 < length ?scores" using len by simp
    show "\<forall>j<length ?scores. ?scores ! j \<le> ?scores ! 0"
      unfolding len using val by simp
    show "\<forall>j<0. ?scores ! j < ?scores ! 0" by simp
  qed
  then have "select_next_action (elementwise g) ?m' = Inr 0"
    by (simp add: select_next_action_def Let_def)
  with ex show ?thesis by blast
qed


text \<open>
  C1. On a node whose arrays and child count are consistent, for a child index
  \<open>0 \<le> i < num_children\<close>: \<open>add_virtual_loss(i)\<close> adds exactly 1 to \<open>virtual_loss\<close> and
  adds 1 to \<open>children_virtual_loss[i]\<close> in int32 arithmetic, which is exactly 1 unless the
  slot holds the largest int32, where it wraps to the smallest; a following
  \<open>update_child_value(i, v)\<close> brings \<open>children_virtual_loss[i]\<close> back to its first value,
  adds 1 to \<open>children_visits[i]\<close> in the same int32 arithmetic and replaces
  \<open>children_value_sum[i]\<close> by the float64 sum of its old value and \<open>v\<close>;
  \<open>update_node_value(v')\<close> replaces \<open>node_value_sum\<close> by the float64 sum of its old value
  and \<open>v'\<close>, adds exactly 1 to \<open>node_visits\<close> and takes exactly 1 from \<open>virtual_loss\<close>, so
  that after the pair both virtual-loss counters are where they started. This holds for
  every float64 addition. An increment of the slot by exactly 1 fails at the largest int32:
  the evaluation that follows the two theorems shows the wrap.
\<close>

theorem virtual_loss_round_trip:
  assumes "node_wf n" and "0 \<le> i" and "i < int (num_children n)"
  shows "\<exists>n1 n2. add_virtual_loss i n = Inr n1 \<and>
           virtual_loss n1 = virtual_loss n + 1 \<and>
           children_virtual_loss n1 ! nat i = children_virtual_loss n ! nat i + 1 \<and>
           sint (children_virtual_loss n1 ! nat i) =
             (if sint (children_virtual_loss n ! nat i) = 2 ^ 31 - 1 then - (2 ^ 31)
              else sint (children_virtual_loss n ! nat i) + 1) \<and>
           update_child_value float64_add i v n1 = Inr n2 \<and>
           children_virtual_loss n2 ! nat i = children_virtual_loss n ! nat i \<and>
           children_visits n2 ! nat i = children_visits n ! nat i + 1 \<and>
           sint (children_visits n2 ! nat i) =
             (if sint (children_visits n ! nat i) = 2 ^ 31 - 1 then - (2 ^ 31)
              else sint (children_visits n ! nat i) + 1) \<and>
           children_value_sum n2 ! nat i = float64_add (children_value_sum n ! nat i) v \<and>
           node_value_sum (update_node_value float64_add v' n2) = float64_add (node_value_sum n2) v' \<and>
           node_visits (update_node_value float64_add v' n2) = node_visits n2 + 1 \<and>
           virtual_loss (update_node_value float64_add v' n2) = virtual_loss n2 - 1 \<and>
           virtual_loss (update_node_value float64_add v' n2) = virtual_loss n \<and>
           children_virtual_loss (update_node_value float64_add v' n2) ! nat i
             = children_virtual_loss n ! nat i"
proof -
  let ?k = "nat i"
  let ?L = "length (children_policy n)"
  have "?k < num_children n" using assms(2,3) by linarith
  moreover have "num_children n \<le> ?L" using assms(1) by (simp add: node_wf_def)
  ultimately have k: "?k < ?L" by linarith
  have lens: "length (children_virtual_loss n) = ?L" "length (children_visits n) = ?L"
    "length (children_value_sum n) = ?L"
    using assms(1) by (simp_all add: node_wf_def)
  have idx: "py_index ?L i = Inr ?k"
    using assms(2) k by (simp add: py_index_in_range)
  let ?n1 = "n\<lparr>virtual_loss := virtual_loss n + 1,
                children_virtual_loss :=
                  (children_virtual_loss n)[?k := children_virtual_loss n ! ?k + 1]\<rparr>"
  let ?n2 = "?n1\<lparr>children_value_sum :=
                    (children_value_sum n)[?k := float64_add (children_value_sum n ! ?k) v],
                  children_visits := (children_visits n)[?k := children_visits n ! ?k + 1],
                  children_virtual_loss := (children_virtual_loss n)[?k := children_virtual_loss n ! ?k]\<rparr>"
  have a: "add_virtual_loss i n = Inr ?n1"
    by (simp add: add_virtual_loss_def py_augitem_def lens idx)
  have b: "update_child_value float64_add i v ?n1 = Inr ?n2"
    using k by (simp add: update_child_value_def py_augitem_def lens idx)
  have d: "virtual_loss ?n1 = virtual_loss n + 1"
    "children_virtual_loss ?n1 ! ?k = children_virtual_loss n ! ?k + 1"
    "children_virtual_loss ?n2 ! ?k = children_virtual_loss n ! ?k"
    "children_visits ?n2 ! ?k = children_visits n ! ?k + 1"
    "children_value_sum ?n2 ! ?k = float64_add (children_value_sum n ! ?k) v"
    using k lens by simp_all
  have c1: "sint (children_visits ?n2 ! ?k) =
      (if sint (children_visits n ! ?k) = 2 ^ 31 - 1 then - (2 ^ 31)
       else sint (children_visits n ! ?k) + 1)"
    unfolding d(4) by (rule sint32_succ_wrap)
  have c2: "sint (children_virtual_loss ?n1 ! ?k) =
      (if sint (children_virtual_loss n ! ?k) = 2 ^ 31 - 1 then - (2 ^ 31)
       else sint (children_virtual_loss n ! ?k) + 1)"
    unfolding d(2) by (rule sint32_succ_wrap)
  have e: "node_value_sum (update_node_value float64_add v' ?n2) = float64_add (node_value_sum ?n2) v'"
    "node_visits (update_node_value float64_add v' ?n2) = node_visits ?n2 + 1"
    "virtual_loss (update_node_value float64_add v' ?n2) = virtual_loss ?n2 - 1"
    "virtual_loss (update_node_value float64_add v' ?n2) = virtual_loss n"
    "children_virtual_loss (update_node_value float64_add v' ?n2) ! ?k = children_virtual_loss n ! ?k"
    using k lens by (simp_all add: update_node_value_def)
  show ?thesis
    apply (rule exI [of _ ?n1], rule exI [of _ ?n2])
    using a b c1 c2 d e by blast
qed

theorem virtual_loss_round_trip_witness:
  "node_wf example_node \<and> (0::int) \<le> 1 \<and> 1 < int (num_children example_node) \<and>
   (\<forall>float64_add.
      \<exists>n1 n2. add_virtual_loss 1 example_node = Inr n1 \<and>
        virtual_loss n1 = virtual_loss example_node + 1 \<and>
        sint (children_virtual_loss n1 ! nat 1) = 1 \<and>
        update_child_value float64_add 1 (- 1) n1 = Inr n2 \<and>
        children_virtual_loss n2 ! nat 1 = children_virtual_loss example_node ! nat 1 \<and>
        sint (children_visits n2 ! nat 1) = 1 \<and>
        children_value_sum n2 ! nat 1 = float64_add 0 (- 1) \<and>
        node_value_sum (update_node_value float64_add (- 1) n2) = float64_add 0 (- 1) \<and>
        virtual_loss (update_node_value float64_add (- 1) n2) = virtual_loss example_node)"
proof -
  have h2: "(0::int) \<le> 1" by simp
  have h3: "1 < int (num_children example_node)" by (simp add: example_node_def)
  have vals: "sint (children_visits example_node ! nat 1) = 0"
    "sint (children_virtual_loss example_node ! nat 1) = 0"
    "children_value_sum example_node ! nat 1 = 0"
    by (simp_all add: example_node_def)
  have "\<exists>n1 n2. add_virtual_loss 1 example_node = Inr n1 \<and>
        virtual_loss n1 = virtual_loss example_node + 1 \<and>
        sint (children_virtual_loss n1 ! nat 1) = 1 \<and>
        update_child_value float64_add 1 (- 1) n1 = Inr n2 \<and>
        children_virtual_loss n2 ! nat 1 = children_virtual_loss example_node ! nat 1 \<and>
        sint (children_visits n2 ! nat 1) = 1 \<and>
        children_value_sum n2 ! nat 1 = float64_add 0 (- 1) \<and>
        node_value_sum (update_node_value float64_add (- 1) n2) = float64_add 0 (- 1) \<and>
        virtual_loss (update_node_value float64_add (- 1) n2) = virtual_loss example_node"
    for float64_add
  proof -
    from virtual_loss_round_trip [OF example_node_wf h2 h3, of float64_add "- 1" "- 1"]
    obtain n1 n2 where r: "add_virtual_loss 1 example_node = Inr n1"
      "virtual_loss n1 = virtual_loss example_node + 1"
      "sint (children_virtual_loss n1 ! nat 1) =
         (if sint (children_virtual_loss example_node ! nat 1) = 2 ^ 31 - 1 then - (2 ^ 31)
          else sint (children_virtual_loss example_node ! nat 1) + 1)"
      "update_child_value float64_add 1 (- 1) n1 = Inr n2"
      "children_virtual_loss n2 ! nat 1 = children_virtual_loss example_node ! nat 1"
      "sint (children_visits n2 ! nat 1) =
         (if sint (children_visits example_node ! nat 1) = 2 ^ 31 - 1 then - (2 ^ 31)
          else sint (children_visits example_node ! nat 1) + 1)"
      "children_value_sum n2 ! nat 1 = float64_add (children_value_sum example_node ! nat 1) (- 1)"
      "node_value_sum (update_node_value float64_add (- 1) n2) = float64_add (node_value_sum n2) (- 1)"
      "virtual_loss (update_node_value float64_add (- 1) n2) = virtual_loss example_node"
      by blast
    have nvs: "node_value_sum n2 = 0"
      using r(1,4)
      by (auto simp: add_virtual_loss_def update_child_value_def py_augitem_def Let_def
          example_node_def split: sum.splits)
    have "sint (children_virtual_loss n1 ! nat 1) = 1" "sint (children_visits n2 ! nat 1) = 1"
      "children_value_sum n2 ! nat 1 = float64_add 0 (- 1)"
      "node_value_sum (update_node_value float64_add (- 1) n2) = float64_add 0 (- 1)"
      using r(3,6,7,8) vals nvs by simp_all
    with r(1,2,4,5,9) show ?thesis by blast
  qed
  with example_node_wf h2 h3 show ?thesis by blast
qed

text \<open>
  The first child of a consistent node holds 2147483647 in \<open>children_virtual_loss\<close>; after
  \<open>add_virtual_loss(0)\<close> the slot holds -2147483648.
\<close>

theorem virtual_loss_wraps_at_int32_max:
  "node_wf saturated_node \<and> 0 < num_children saturated_node
   \<and> sint (children_virtual_loss saturated_node ! 0) = 2147483647
   \<and> add_virtual_loss 0 saturated_node
       = Inr (saturated_node\<lparr>virtual_loss := 1, children_virtual_loss := [2147483648, 0, 0]\<rparr>)
   \<and> sint (children_virtual_loss
             (saturated_node\<lparr>virtual_loss := 1, children_virtual_loss := [2147483648, 0, 0]\<rparr>) ! 0)
       = - 2147483648"
  by (simp add: saturated_node_def example_node_def node_wf_def add_virtual_loss_def
      py_augitem_def py_index_def)

text \<open>
  C6. On a consistent node with at least one child, \<open>get_best_move_index\<close> returns an index
  \<open>k\<close> below \<open>num_children\<close> whose visit count is the largest among the first
  \<open>num_children\<close> slots and strictly larger than every count before it (the first maximum);
  when all those counts are zero, \<open>k\<close> is 0; and \<open>get_best_move\<close> returns \<open>action[k]\<close>.
\<close>

theorem best_move_is_first_max:
  assumes "node_wf n" and "1 \<le> num_children n"
  shows "\<exists>k. get_best_move_index n = Inr k \<and> k < num_children n \<and>
           (\<forall>j<num_children n. sint (children_visits n ! j) \<le> sint (children_visits n ! k)) \<and>
           (\<forall>j<k. sint (children_visits n ! j) < sint (children_visits n ! k)) \<and>
           ((\<forall>j<num_children n. children_visits n ! j = 0) \<longrightarrow> k = 0) \<and>
           get_best_move n = Inr (action n ! k)"
proof -
  let ?xs = "map sint (take (num_children n) (children_visits n))"
  have len: "length ?xs = num_children n"
    using assms(1) by (simp add: node_wf_def)
  have nth: "\<And>j. j < num_children n \<Longrightarrow> ?xs ! j = sint (children_visits n ! j)"
    using assms(1) by (simp add: node_wf_def)
  have "?xs \<noteq> []" using len assms(2) by auto
  from np_argmax_spec [OF this] obtain k where k: "np_argmax ?xs = Inr k" "k < length ?xs"
    "\<forall>j<length ?xs. ?xs ! j \<le> ?xs ! k" "\<forall>j<k. ?xs ! j < ?xs ! k" by blast
  have kn: "k < num_children n" using k(2) len by simp
  have idx: "get_best_move_index n = Inr k"
    using k(1) by (simp add: get_best_move_index_def)
  have mx: "\<forall>j<num_children n. sint (children_visits n ! j) \<le> sint (children_visits n ! k)"
    using k(3) kn nth len by auto
  have first: "\<forall>j<k. sint (children_visits n ! j) < sint (children_visits n ! k)"
    using k(4) kn nth by auto
  have zero: "(\<forall>j<num_children n. children_visits n ! j = 0) \<longrightarrow> k = 0"
  proof (intro impI, rule ccontr)
    assume z: "\<forall>j<num_children n. children_visits n ! j = 0" and "k \<noteq> 0"
    then have "0 < k" by simp
    with first have "sint (children_visits n ! 0) < sint (children_visits n ! k)" by blast
    moreover have "children_visits n ! 0 = 0" "children_visits n ! k = 0"
      using z kn \<open>0 < k\<close> by auto
    ultimately show False by simp
  qed
  have "k < length (action n)" using kn assms(1) by (simp add: node_wf_def)
  then have mv: "get_best_move n = Inr (action n ! k)"
    by (simp add: get_best_move_def idx py_getitem_def py_index_of_nat)
  from idx kn mx first zero mv show ?thesis by blast
qed


theorem best_move_is_first_max_witness:
  "node_wf example_node \<and> 1 \<le> num_children example_node \<and>
   get_best_move_index example_node = Inr 0 \<and> get_best_move example_node = Inr 10"
proof -
  have h: "1 \<le> num_children example_node" by (simp add: example_node_def)
  from best_move_is_first_max [OF example_node_wf h]
  obtain k where k: "get_best_move_index example_node = Inr k"
    "(\<forall>j<num_children example_node. children_visits example_node ! j = 0) \<longrightarrow> k = 0"
    "get_best_move example_node = Inr (action example_node ! k)"
    by blast
  have "\<forall>j<num_children example_node. children_visits example_node ! j = 0"
    by (simp add: example_node_def less_Suc_eq numeral_3_eq_3)
  with k have "k = 0" by blast
  with k example_node_wf h show ?thesis by (simp add: example_node_def)
qed

text \<open>
  C10. On a node without children (\<open>num_children = 0\<close>: fresh from the constructor, or
  expanded with an empty policy map) both \<open>select_next_action\<close>, whatever the evaluator
  computes, and \<open>get_best_move_index\<close> raise ValueError, the argmax of an empty slice; neither
  returns an index.
\<close>

theorem no_children_raises:
  assumes "num_children n = 0 \<or> MCTSNode_init num_actions = Inr n
           \<or> expand BOARD_SIZE NOT_EXPANDED [] m = Inr n"
  shows "select_next_action pucb n = Inl ValueError \<and> get_best_move_index n = Inl ValueError"
proof -
  have "num_children n = 0"
    using assms by (auto simp: MCTSNode_init_def expand_def set_policy_def split: if_splits)
  then show ?thesis
    by (simp add: select_next_action_def get_best_move_index_def np_argmax_def)
qed


theorem no_children_raises_witness:
  "(\<exists>n. MCTSNode_init 3 = Inr n \<and>
        select_next_action (calculate_pucb_value PUCT_WEIGHT) n = Inl ValueError \<and>
        get_best_move_index n = Inl ValueError)
   \<and> (\<exists>n. expand 9 (- 1) [] example_node = Inr n \<and>
        select_next_action (calculate_pucb_value PUCT_WEIGHT) n = Inl ValueError \<and>
        get_best_move_index n = Inl ValueError)"
proof -
  obtain n where n: "MCTSNode_init 3 = Inr n" by (simp add: MCTSNode_init_def)
  obtain n' where n': "expand 9 (- 1) [] example_node = Inr n'"
    by (simp add: expand_def set_policy_def)
  from n n' no_children_raises [of n 3 9 "- 1" example_node "calculate_pucb_value PUCT_WEIGHT"]
    no_children_raises [of n' 3 9 "- 1" example_node "calculate_pucb_value PUCT_WEIGHT"]
  show ?thesis by blast
qed


text \<open>
  C4. After \<open>expand({A: 0.4, B: 0.6})\<close>, with two distinct keys, on a node whose arrays
  have room for two children: \<open>num_children = 2\<close>, \<open>action[0] = A\<close>,
  \<open>children_policy[0] = 0.4\<close>, \<open>action[1] = B\<close>, \<open>children_policy[1] = 0.6\<close> and
  \<open>node_visits = 0\<close>.
\<close>

theorem expand_two_children:
  assumes "A \<noteq> B" and "1 \<le> BOARD_SIZE" and "2 \<le> length (children_policy n)"
  shows "\<exists>n'. expand BOARD_SIZE NOT_EXPANDED [(A, 4 / 10), (B, 6 / 10)] n = Inr n' \<and>
           num_children n' = 2 \<and> action n' ! 0 = A \<and> children_policy n' ! 0 = 4 / 10 \<and>
           action n' ! 1 = B \<and> children_policy n' ! 1 = 6 / 10 \<and> node_visits n' = 0"
proof -
  have "2 \<le> MAX_ACTIONS BOARD_SIZE"
    using assms(2) by (simp add: MAX_ACTIONS_def Suc_le_eq)
  then show ?thesis using assms(3) by (simp add: expand_ok)
qed


theorem expand_two_children_witness:
  "(10::int) \<noteq> 20 \<and> (1::nat) \<le> 9 \<and> 2 \<le> length (children_policy example_node) \<and>
   (\<exists>n'. expand 9 (- 1) [(10, 4 / 10), (20, 6 / 10)] example_node = Inr n' \<and>
      num_children n' = 2 \<and> action n' ! 0 = 10 \<and> children_policy n' ! 0 = 4 / 10 \<and>
      action n' ! 1 = 20 \<and> children_policy n' ! 1 = 6 / 10 \<and> node_visits n' = 0)"
proof -
  have h1: "(10::int) \<noteq> 20" by simp
  have h2: "(1::nat) \<le> 9" by simp
  have h3: "2 \<le> length (children_policy example_node)" by (simp add: example_node_def)
  from expand_two_children [OF h1 h2 h3, where NOT_EXPANDED = "- 1"] h1 h2 h3
  show ?thesis by blast
qed

text \<open>
  C3. \<open>expand\<close> is claimed to leave a freshly expanded leaf whatever the node held before,
  with every \<open>children_policy\<close> slot beyond the installed ones at zero. The code fills six
  arrays but not \<open>children_policy\<close>: a node of a 9x9 board, fresh from the constructor,
  expanded with \<open>{10: 0.5, 20: 0.5}\<close> and then with \<open>{30: 1.0}\<close> has one child and still
  holds 0.5 in \<open>children_policy[1]\<close>. (Lemma \<open>expand_ok\<close> gives the whole state after
  \<open>expand\<close>; everything else the claim lists is as claimed.)
\<close>

theorem expand_keeps_stale_policy:
  "(case MCTSNode_init (int (MAX_ACTIONS 9)) of
      Inl e \<Rightarrow> False
    | Inr n0 \<Rightarrow>
        (case expand 9 (- 1) [(10, 1 / 2), (20, 1 / 2)] n0 of
           Inl e \<Rightarrow> False
         | Inr n1 \<Rightarrow>
             (case expand 9 (- 1) [(30, 1)] n1 of
                Inl e \<Rightarrow> False
              | Inr n2 \<Rightarrow> num_children n2 = 1 \<and> children_policy n2 ! 1 = 1 / 2)))"
  by (simp add: MCTSNode_init_def expand_ok MAX_ACTIONS_def)



text \<open>
  C5. \<open>select_next_action\<close> hands the evaluator the parent total
  \<open>node_visits + virtual_loss\<close>, the per-child totals, the value sums and prior plus noise,
  looks at the first \<open>num_children\<close> scores only, and returns the first index that attains
  their maximum. Its result is the same on two nodes that agree on these inputs and on
  \<open>num_children\<close>. On a node freshly expanded with two children of equal prior, an
  evaluator that scores child by child gives both the same score, and the result is index 0.
\<close>

theorem select_next_action_first_max:
  fixes pucb :: pucb_evaluator
  shows "(let scores = take (num_children n)
                 (pucb (node_visits n + virtual_loss n)
                    (map2 (+) (children_visits n) (children_virtual_loss n))
                    (children_value_sum n)
                    (map2 (+) (children_policy n) (noise n)))
          in scores \<noteq> [] \<longrightarrow>
             (\<exists>k. select_next_action pucb n = Inr k \<and> k < num_children n \<and> k < length scores \<and>
                  (\<forall>j<length scores. scores ! j \<le> scores ! k) \<and>
                  (\<forall>j<k. scores ! j < scores ! k)))
         \<and> (node_visits n + virtual_loss n = node_visits n' + virtual_loss n' \<and>
            map2 (+) (children_visits n) (children_virtual_loss n)
              = map2 (+) (children_visits n') (children_virtual_loss n') \<and>
            children_value_sum n = children_value_sum n' \<and>
            map2 (+) (children_policy n) (noise n) = map2 (+) (children_policy n') (noise n') \<and>
            num_children n = num_children n'
            \<longrightarrow> select_next_action pucb n = select_next_action pucb n')
         \<and> (A \<noteq> B \<and> 1 \<le> BOARD_SIZE \<and> node_wf m \<and> 2 \<le> length (children_policy m) \<longrightarrow>
            (\<exists>m'. expand BOARD_SIZE NOT_EXPANDED [(A, p), (B, p)] m = Inr m' \<and>
                  select_next_action (elementwise g) m' = Inr 0))"
proof (intro conjI)
  let ?scores = "take (num_children n)
                 (pucb (node_visits n + virtual_loss n)
                    (map2 (+) (children_visits n) (children_virtual_loss n))
                    (children_value_sum n)
                    (map2 (+) (children_policy n) (noise n)))"
  have "\<exists>k. select_next_action pucb n = Inr k \<and> k < num_children n \<and> k < length ?scores \<and>
            (\<forall>j<length ?scores. ?scores ! j \<le> ?scores ! k) \<and> (\<forall>j<k. ?scores ! j < ?scores ! k)"
    if ne: "?scores \<noteq> []"
  proof -
    from np_argmax_spec [OF ne] obtain k where k: "np_argmax ?scores = Inr k" "k < length ?scores"
      "\<forall>j<length ?scores. ?scores ! j \<le> ?scores ! k" "\<forall>j<k. ?scores ! j < ?scores ! k"
      by blast
    have "select_next_action pucb n = Inr k"
      using k(1) by (simp add: select_next_action_def Let_def)
    moreover have "k < num_children n" using k(2) by simp
    ultimately show ?thesis using k by blast
  qed
  then show "let scores = ?scores in scores \<noteq> [] \<longrightarrow>
             (\<exists>k. select_next_action pucb n = Inr k \<and> k < num_children n \<and> k < length scores \<and>
                  (\<forall>j<length scores. scores ! j \<le> scores ! k) \<and>
                  (\<forall>j<k. scores ! j < scores ! k))"
    unfolding Let_def by blast
next
  show "node_visits n + virtual_loss n = node_visits n' + virtual_loss n' \<and>
            map2 (+) (children_visits n) (children_virtual_loss n)
              = map2 (+) (children_visits n') (children_virtual_loss n') \<and>
            children_value_sum n = children_value_sum n' \<and>
            map2 (+) (children_policy n) (noise n) = map2 (+) (children_policy n') (noise n') \<and>
            num_children n = num_children n'
            \<longrightarrow> select_next_action pucb n = select_next_action pucb n'"
    by (simp add: select_next_action_def)
next
  show "A \<noteq> B \<and> 1 \<le> BOARD_SIZE \<and> node_wf m \<and> 2 \<le> length (children_policy m) \<longrightarrow>
            (\<exists>m'. expand BOARD_SIZE NOT_EXPANDED [(A, p), (B, p)] m = Inr m' \<and>
                  select_next_action (elementwise g) m' = Inr 0)"
    using fresh_pair_selects_first by blast
qed


theorem select_next_action_first_max_witness:
  "(\<exists>k. select_next_action (calculate_pucb_value PUCT_WEIGHT) example_node = Inr k \<and> k < 3)
   \<and> (\<exists>m'. expand 9 (- 1) [(10, 1 / 2), (20, 1 / 2)] example_node = Inr m' \<and>
          select_next_action (calculate_pucb_value PUCT_WEIGHT) m' = Inr 0)"
proof -
  note inst = select_next_action_first_max
    [where pucb = "calculate_pucb_value PUCT_WEIGHT" and n = example_node and n' = example_node
       and A = 10 and B = 20 and BOARD_SIZE = 9 and m = example_node and NOT_EXPANDED = "- 1"
       and p = "1 / 2" and g = "\<lambda>N n w p. pucb_score PUCT_WEIGHT N (sint n) w p"]
  have ne: "take (num_children example_node)
              (calculate_pucb_value PUCT_WEIGHT
                 (node_visits example_node + virtual_loss example_node)
                 (map2 (+) (children_visits example_node) (children_virtual_loss example_node))
                 (children_value_sum example_node)
                 (map2 (+) (children_policy example_node) (noise example_node))) \<noteq> []"
    by (simp add: example_node_def calculate_pucb_value_def elementwise_def)
  have n3: "num_children example_node = 3" by (simp add: example_node_def)
  have hyp: "(10::int) \<noteq> 20 \<and> (1::nat) \<le> 9 \<and> node_wf example_node
             \<and> 2 \<le> length (children_policy example_node)"
    using example_node_wf by (simp add: example_node_def)
  have eq: "calculate_pucb_value PUCT_WEIGHT
              = elementwise (\<lambda>N n w p. pucb_score PUCT_WEIGHT N (sint n) w p)"
    by (simp add: calculate_pucb_value_def)
  from inst ne have "\<exists>k. select_next_action (calculate_pucb_value PUCT_WEIGHT) example_node = Inr k
                        \<and> k < num_children example_node"
    unfolding Let_def by blast
  moreover from inst hyp
  have "\<exists>m'. expand 9 (- 1) [(10, 1 / 2), (20, 1 / 2)] example_node = Inr m' \<and>
             select_next_action (calculate_pucb_value PUCT_WEIGHT) m' = Inr 0"
    unfolding eq by blast
  ultimately show ?thesis unfolding n3 by blast
qed

lemma update_policy_loop_ok:
  assumes "\<forall>i\<in>set idxs. i < length (action n) \<and> i < length (children_policy n) \<and>
             map_of policy (action n ! i) \<noteq> None"
  shows "\<exists>pols. update_policy_loop policy idxs n = Inr (n\<lparr>children_policy := pols\<rparr>) \<and>
           length pols = length (children_policy n) \<and>
           (\<forall>i<length pols. pols ! i =
              (if i \<in> set idxs then the (map_of policy (action n ! i)) else children_policy n ! i))"
  using assms
proof (induction idxs arbitrary: n)
  case Nil
  have "update_policy_loop policy [] n = Inr (n\<lparr>children_policy := children_policy n\<rparr>)"
    by simp
  then show ?case by (intro exI [of _ "children_policy n"]) simp
next
  case (Cons i rest)
  from Cons.prems obtain v where v: "map_of policy (action n ! i) = Some v"
    and ia: "i < length (action n)" and ip: "i < length (children_policy n)"
    by auto
  let ?n1 = "n\<lparr>children_policy := (children_policy n)[i := v]\<rparr>"
  have step: "update_policy_loop policy (i # rest) n = update_policy_loop policy rest ?n1"
    using v ia ip by (simp add: py_getitem_def py_setitem_def py_index_of_nat)
  have "\<forall>k\<in>set rest. k < length (action ?n1) \<and> k < length (children_policy ?n1) \<and>
          map_of policy (action ?n1 ! k) \<noteq> None"
    using Cons.prems by simp
  from Cons.IH [OF this] obtain pols where pols:
    "update_policy_loop policy rest ?n1 = Inr (?n1\<lparr>children_policy := pols\<rparr>)"
    "length pols = length (children_policy ?n1)"
    "\<forall>k<length pols. pols ! k =
       (if k \<in> set rest then the (map_of policy (action ?n1 ! k)) else children_policy ?n1 ! k)"
    by blast
  have "update_policy_loop policy (i # rest) n = Inr (n\<lparr>children_policy := pols\<rparr>)"
    using step pols(1) by simp
  moreover have "length pols = length (children_policy n)" using pols(2) by simp
  moreover have "\<forall>k<length pols. pols ! k =
       (if k \<in> set (i # rest) then the (map_of policy (action n ! k)) else children_policy n ! k)"
    using pols(2,3) v ip by (auto simp: nth_list_update)
  ultimately show ?case by blast
qed

lemma update_policy_loop_missing:
  assumes "\<forall>i\<in>set idxs. i < length (action n) \<and> i < length (children_policy n)"
    and "\<exists>i\<in>set idxs. map_of policy (action n ! i) = None"
  shows "\<exists>n'. update_policy_loop policy idxs n = Inl (KeyError, n')"
  using assms
proof (induction idxs arbitrary: n)
  case Nil
  then show ?case by simp
next
  case (Cons i rest)
  have ia: "i < length (action n)" and ip: "i < length (children_policy n)"
    using Cons.prems(1) by simp_all
  show ?case
  proof (cases "map_of policy (action n ! i)")
    case None
    then show ?thesis using ia by (simp add: py_getitem_def py_index_of_nat)
  next
    case (Some v)
    let ?n1 = "n\<lparr>children_policy := (children_policy n)[i := v]\<rparr>"
    have step: "update_policy_loop policy (i # rest) n = update_policy_loop policy rest ?n1"
      using Some ia ip by (simp add: py_getitem_def py_setitem_def py_index_of_nat)
    have a: "\<forall>k\<in>set rest. k < length (action ?n1) \<and> k < length (children_policy ?n1)"
      using Cons.prems(1) by simp
    have b: "\<exists>k\<in>set rest. map_of policy (action ?n1 ! k) = None"
      using Cons.prems(2) Some by auto
    from Cons.IH [OF a b] show ?thesis using step by simp
  qed
qed

text \<open>
  C8. On a consistent node and a policy dict: when every \<open>action[i]\<close>, \<open>i < num_children\<close>,
  is a key, \<open>update_policy\<close> returns normally with \<open>children_policy[i]\<close> set to the value
  stored under \<open>action[i]\<close> for each such \<open>i\<close>, the other slots of \<open>children_policy\<close> and
  every other field as before; when some such action is not a key, it raises KeyError.
\<close>

theorem update_policy_overwrites_or_raises:
  assumes "node_wf n" and "dict_wf policy"
  shows "((\<forall>i<num_children n. action n ! i \<in> fst ` set policy) \<longrightarrow>
            (\<exists>n'. update_policy policy n = Inr n' \<and>
               (\<forall>i<num_children n. map_of policy (action n ! i) = Some (children_policy n' ! i)) \<and>
               (\<forall>i<num_children n. (action n ! i, children_policy n' ! i) \<in> set policy) \<and>
               n' = n\<lparr>children_policy := children_policy n'\<rparr> \<and>
               length (children_policy n') = length (children_policy n) \<and>
               (\<forall>i. num_children n \<le> i \<and> i < length (children_policy n) \<longrightarrow>
                    children_policy n' ! i = children_policy n ! i)))
         \<and> ((\<exists>i<num_children n. action n ! i \<notin> fst ` set policy) \<longrightarrow>
            (\<exists>n'. update_policy policy n = Inl (KeyError, n')))"
proof (intro conjI impI)
  have nc: "num_children n \<le> length (action n)" "num_children n \<le> length (children_policy n)"
    using assms(1) by (simp_all add: node_wf_def)
  {
    assume all: "\<forall>i<num_children n. action n ! i \<in> fst ` set policy"
    have "\<forall>i\<in>set [0..<num_children n]. i < length (action n) \<and> i < length (children_policy n) \<and>
             map_of policy (action n ! i) \<noteq> None"
      using all nc by (auto simp: map_of_eq_None_iff)
    from update_policy_loop_ok [OF this] obtain pols where pols:
      "update_policy policy n = Inr (n\<lparr>children_policy := pols\<rparr>)"
      "length pols = length (children_policy n)"
      "\<forall>i<length pols. pols ! i =
         (if i \<in> set [0..<num_children n] then the (map_of policy (action n ! i))
          else children_policy n ! i)"
      unfolding update_policy_def by blast
    let ?n' = "n\<lparr>children_policy := pols\<rparr>"
    have look: "\<forall>i<num_children n. map_of policy (action n ! i) = Some (children_policy ?n' ! i)"
    proof (intro allI impI)
      fix i assume i: "i < num_children n"
      then have "map_of policy (action n ! i) \<noteq> None"
        using all by (auto simp: map_of_eq_None_iff)
      moreover have "pols ! i = the (map_of policy (action n ! i))"
        using pols(2,3) i nc by simp
      ultimately show "map_of policy (action n ! i) = Some (children_policy ?n' ! i)" by auto
    qed
    have mem: "\<forall>i<num_children n. (action n ! i, children_policy ?n' ! i) \<in> set policy"
      using look by (auto dest: map_of_SomeD)
    have rest: "\<forall>i. num_children n \<le> i \<and> i < length (children_policy n) \<longrightarrow>
                    children_policy ?n' ! i = children_policy n ! i"
      using pols(2,3) by simp
    show "\<exists>n'. update_policy policy n = Inr n' \<and>
               (\<forall>i<num_children n. map_of policy (action n ! i) = Some (children_policy n' ! i)) \<and>
               (\<forall>i<num_children n. (action n ! i, children_policy n' ! i) \<in> set policy) \<and>
               n' = n\<lparr>children_policy := children_policy n'\<rparr> \<and>
               length (children_policy n') = length (children_policy n) \<and>
               (\<forall>i. num_children n \<le> i \<and> i < length (children_policy n) \<longrightarrow>
                    children_policy n' ! i = children_policy n ! i)"
      apply (rule exI [of _ ?n'])
      using pols(1,2) look mem rest by simp
  }
  {
    assume miss: "\<exists>i<num_children n. action n ! i \<notin> fst ` set policy"
    have a: "\<forall>i\<in>set [0..<num_children n]. i < length (action n) \<and> i < length (children_policy n)"
      using nc by auto
    have b: "\<exists>i\<in>set [0..<num_children n]. map_of policy (action n ! i) = None"
      using miss by (auto simp: map_of_eq_None_iff)
    from update_policy_loop_missing [OF a b]
    show "\<exists>n'. update_policy policy n = Inl (KeyError, n')"
      unfolding update_policy_def .
  }
qed


theorem update_policy_overwrites_or_raises_witness:
  "node_wf example_node \<and> dict_wf [(30, 1 / 2), (20, 3 / 10), (10, 1 / 5)] \<and> dict_wf [(10, 1)] \<and>
   (\<exists>n'. update_policy [(30, 1 / 2), (20, 3 / 10), (10, 1 / 5)] example_node = Inr n' \<and>
      children_policy n' ! 0 = 1 / 5 \<and> children_policy n' ! 2 = 1 / 2) \<and>
   (\<exists>n'. update_policy [(10, 1)] example_node = Inl (KeyError, n'))"
proof -
  have d1: "dict_wf [(30, 1 / 2), (20, 3 / 10), (10, 1 / 5)]" by (simp add: dict_wf_def)
  have d2: "dict_wf [(10, 1)]" by (simp add: dict_wf_def)
  have n3: "num_children example_node = 3" by (simp add: example_node_def)
  have all: "\<forall>i<num_children example_node.
               action example_node ! i \<in> fst ` set [(30, 1 / 2 :: real), (20, 3 / 10), (10, 1 / 5)]"
    by (simp add: example_node_def less_Suc_eq numeral_3_eq_3)
  have miss: "\<exists>i<num_children example_node. action example_node ! i \<notin> fst ` set [(10, 1 :: real)]"
    by (rule exI [of _ 1]) (simp add: example_node_def)
  from update_policy_overwrites_or_raises [OF example_node_wf d1] all
  obtain n' where n': "update_policy [(30, 1 / 2), (20, 3 / 10), (10, 1 / 5)] example_node = Inr n'"
    "\<forall>i<num_children example_node.
       map_of [(30, 1 / 2), (20, 3 / 10), (10, 1 / 5)] (action example_node ! i)
         = Some (children_policy n' ! i)"
    by blast
  have "map_of [(30, 1 / 2), (20, 3 / 10), (10, 1 / 5)] (action example_node ! 0)
          = Some (children_policy n' ! 0)"
    "map_of [(30, 1 / 2), (20, 3 / 10), (10, 1 / 5)] (action example_node ! 2)
          = Some (children_policy n' ! 2)"
    using n'(2) n3 by simp_all
  then have vals: "children_policy n' ! 0 = 1 / 5" "children_policy n' ! 2 = 1 / 2"
    by (simp_all add: example_node_def)
  from update_policy_overwrites_or_raises [OF example_node_wf d2] miss
  have "\<exists>n'. update_policy [(10, 1)] example_node = Inl (KeyError, n')"
    by blast
  with example_node_wf d1 d2 n'(1) vals show ?thesis by blast
qed


section \<open>The PUCB evaluator\<close>

lemma exploration_mono_p:
  fixes c p p' :: real
  assumes "0 \<le> c" and "0 \<le> N" and "0 \<le> n" and "p \<le> p'"
  shows "c * p * sqrt (real_of_int N) / (1 + real_of_int n)
           \<le> c * p' * sqrt (real_of_int N) / (1 + real_of_int n)"
proof -
  have "c * p \<le> c * p'" using assms(1,4) by (rule mult_left_mono [rotated])
  moreover have "0 \<le> sqrt (real_of_int N)" using assms(2) by simp
  ultimately have "c * p * sqrt (real_of_int N) \<le> c * p' * sqrt (real_of_int N)"
    by (rule mult_right_mono)
  moreover have "0 \<le> 1 + real_of_int n" using assms(3) by simp
  ultimately show ?thesis by (rule divide_right_mono)
qed

text \<open>
  C9. The score of a child is claimed to be non-decreasing in the exploration weight \<open>p\<close>
  and in the accumulated value \<open>w\<close>, and decreasing in the visit count \<open>n\<close> for fixed \<open>w\<close>.
  For a non-negative constant, parent total and visit count the first two hold. The third
  holds between visited counts (\<open>1 \<le> n \<le> n'\<close>) when \<open>w\<close> and \<open>p\<close> are non-negative, strictly
  when \<open>w\<close> is positive; for a negative \<open>w\<close> the mean \<open>w / n\<close> rises with \<open>n\<close>, and the second
  theorem shows the score rising from one visit to two.
\<close>

theorem pucb_score_monotone:
  assumes "0 \<le> c" and "0 \<le> N" and "0 \<le> n"
  shows "(p \<le> p' \<longrightarrow> pucb_score c N n w p \<le> pucb_score c N n w p')
         \<and> (w \<le> w' \<longrightarrow> pucb_score c N n w p \<le> pucb_score c N n w' p)
         \<and> (1 \<le> n \<and> n \<le> n' \<and> 0 \<le> w \<and> 0 \<le> p \<longrightarrow>
              pucb_score c N n' w p \<le> pucb_score c N n w p)
         \<and> (1 \<le> n \<and> n < n' \<and> 0 < w \<and> 0 \<le> p \<longrightarrow>
              pucb_score c N n' w p < pucb_score c N n w p)"
proof (intro conjI impI)
  assume "p \<le> p'"
  from exploration_mono_p [OF assms this]
  show "pucb_score c N n w p \<le> pucb_score c N n w p'"
    by (simp add: pucb_score_def)
next
  assume "w \<le> w'"
  then have "w / real_of_int n \<le> w' / real_of_int n"
    using assms(3) by (intro divide_right_mono) simp_all
  then show "pucb_score c N n w p \<le> pucb_score c N n w' p"
    by (simp add: pucb_score_def)
next
  assume h: "1 \<le> n \<and> n \<le> n' \<and> 0 \<le> w \<and> 0 \<le> p"
  have e: "0 \<le> c * p * sqrt (real_of_int N)" using assms(1,2) h by simp
  have "w / real_of_int n' \<le> w / real_of_int n"
    using h by (intro divide_left_mono) simp_all
  moreover have "c * p * sqrt (real_of_int N) / (1 + real_of_int n')
                   \<le> c * p * sqrt (real_of_int N) / (1 + real_of_int n)"
    using h e by (intro divide_left_mono) simp_all
  ultimately show "pucb_score c N n' w p \<le> pucb_score c N n w p"
    using h by (simp add: pucb_score_def)
next
  assume h: "1 \<le> n \<and> n < n' \<and> 0 < w \<and> 0 \<le> p"
  have e: "0 \<le> c * p * sqrt (real_of_int N)" using assms(1,2) h by simp
  have "w / real_of_int n' < w / real_of_int n"
    using h by (intro divide_strict_left_mono) simp_all
  moreover have "c * p * sqrt (real_of_int N) / (1 + real_of_int n')
                   \<le> c * p * sqrt (real_of_int N) / (1 + real_of_int n)"
    using h e by (intro divide_left_mono) simp_all
  ultimately show "pucb_score c N n' w p < pucb_score c N n w p"
    using h by (simp add: pucb_score_def)
qed


theorem pucb_score_monotone_witness:
  "(0::real) \<le> PUCT_WEIGHT \<and> (0::int) \<le> 4 \<and> (0::int) \<le> 1 \<and>
   pucb_score PUCT_WEIGHT 4 1 1 (1 / 4) \<le> pucb_score PUCT_WEIGHT 4 1 1 (1 / 2) \<and>
   pucb_score PUCT_WEIGHT 4 1 1 (1 / 4) \<le> pucb_score PUCT_WEIGHT 4 1 2 (1 / 4) \<and>
   pucb_score PUCT_WEIGHT 4 2 1 (1 / 4) \<le> pucb_score PUCT_WEIGHT 4 1 1 (1 / 4) \<and>
   pucb_score PUCT_WEIGHT 4 2 1 (1 / 4) < pucb_score PUCT_WEIGHT 4 1 1 (1 / 4)"
proof -
  have h1: "(0::real) \<le> PUCT_WEIGHT" by (simp add: PUCT_WEIGHT_def)
  have h2: "(0::int) \<le> 4" and h3: "(0::int) \<le> 1" by simp_all
  from pucb_score_monotone [OF h1 h2 h3, where p = "1 / 4" and p' = "1 / 2" and w = 1 and w' = 2
      and n' = 2]
  show ?thesis using h1 by simp
qed

text \<open>
  With parent total 4 and exploration weight 1/2: a child of accumulated value -1 scores
  higher after two visits than after one, and a child of accumulated value 1 scores higher
  after its first visit than before it.
\<close>

theorem pucb_score_rises_with_visits:
  "pucb_score PUCT_WEIGHT 4 1 (- 1) (1 / 2) < pucb_score PUCT_WEIGHT 4 2 (- 1) (1 / 2)
   \<and> pucb_score PUCT_WEIGHT 4 0 1 (1 / 2) < pucb_score PUCT_WEIGHT 4 1 1 (1 / 2)"
  by (simp add: pucb_score_def PUCT_WEIGHT_def)


section \<open>A scenario\<close>

text \<open>
  Three backups on the example node, for any float64 addition: visit counts 1, 2, 0, the
  value sums accumulated in call order, and the second child is the best move.
\<close>

lemma node_scenario:
  "update_child_value float64_add 0 1 example_node = Inr n1 \<Longrightarrow>
   update_child_value float64_add 1 (- 1) n1 = Inr n2 \<Longrightarrow>
   update_child_value float64_add 1 (1 / 2) n2 = Inr n3 \<Longrightarrow>
   children_visits n3 = [1, 2, 0] \<and>
   children_value_sum n3 = [float64_add 0 1, float64_add (float64_add 0 (- 1)) (1 / 2), 0] \<and>
   get_best_move_index n3 = Inr 1"
  by (auto simp: update_child_value_def py_augitem_def py_index_def example_node_def
      get_best_move_index_def np_argmax_def)

end
